theory Spec2Isabelle
  imports Main
begin

section \<open>Values passed through the monitor\<close>

text \<open>
  The rejection value of the window query is an arbitrary JavaScript value. The fragment
  modelled here: \<open>undefined\<close>, \<open>null\<close>, booleans, integral numbers, strings, arrays,
  plain objects (own enumerable properties in enumeration order) and \<open>Error\<close> instances
  (a message, no enumerable property).
\<close>

datatype jsval =
    JUndefined
  | JNull
  | JBool bool
  | JNum int
  | JStr string
  | JArr "jsval list"
  | JObj "(string \<times> jsval) list"
  | JError string

text \<open>Decimal rendering of a number, as \<open>String(n)\<close> gives for an integral value.\<close>

function show_nat :: "nat \<Rightarrow> string" where
  "show_nat n =
     (if n < 10 then [''0123456789'' ! n]
      else show_nat (n div 10) @ [''0123456789'' ! (n mod 10)])"
  by pat_completeness auto
termination
  by (relation "measure (\<lambda>n. n)") auto

declare show_nat.simps [simp del]

definition show_int :: "int \<Rightarrow> string" where
  "show_int i = (if i < 0 then CHR ''-'' # show_nat (nat (- i)) else show_nat (nat i))"

text \<open>
  The quoting of a string by \<open>JSON.stringify\<close>: the double quote (0x22) and the
  backslash (0x5C) are escaped, the control characters have their short escapes or
  the form backslash, u, four hexadecimal digits.
\<close>

definition escape_char :: "char \<Rightarrow> string" where
  "escape_char c =
     (let n = (of_char c :: nat) in
      if n = 0x22 then [CHR 0x5C, CHR 0x22]
      else if n = 0x5C then [CHR 0x5C, CHR 0x5C]
      else if n = 0x08 then [CHR 0x5C, CHR ''b'']
      else if n = 0x0C then [CHR 0x5C, CHR ''f'']
      else if n = 0x0A then [CHR 0x5C, CHR ''n'']
      else if n = 0x0D then [CHR 0x5C, CHR ''r'']
      else if n = 0x09 then [CHR 0x5C, CHR ''t'']
      else if n < 0x20 then
        [CHR 0x5C, CHR ''u'', CHR ''0'', CHR ''0'',
         ''0123456789abcdef'' ! (n div 16), ''0123456789abcdef'' ! (n mod 16)]
      else [c])"

definition quote :: "string \<Rightarrow> string" where
  "quote s = CHR 0x22 # concat (map escape_char s) @ [CHR 0x22]"

fun join_comma :: "string list \<Rightarrow> string" where
  "join_comma [] = []"
| "join_comma [x] = x"
| "join_comma (x # y # ys) = x @ CHR '','' # join_comma (y # ys)"

text \<open>
  \<open>stringify\<close> of the library json-stringify-safe, which the monitor imports: on a
  value without cycles it is \<open>JSON.stringify\<close>. The result is a string, or \<open>undefined\<close>
  (here \<open>None\<close>) for the value \<open>undefined\<close>. An \<open>undefined\<close> array element is rendered
  as null, a property whose value is \<open>undefined\<close> is left out, an \<open>Error\<close> instance has
  no enumerable property and renders as the empty object.
\<close>

fun stringify :: "jsval \<Rightarrow> string option"
  and stringify_elems :: "jsval list \<Rightarrow> string list"
  and stringify_props :: "(string \<times> jsval) list \<Rightarrow> string list" where
  "stringify JUndefined = None"
| "stringify JNull = Some ''null''"
| "stringify (JBool b) = Some (if b then ''true'' else ''false'')"
| "stringify (JNum i) = Some (show_int i)"
| "stringify (JStr s) = Some (quote s)"
| "stringify (JArr xs) = Some (CHR ''['' # join_comma (stringify_elems xs) @ '']'')"
| "stringify (JObj kvs) = Some (CHR ''{'' # join_comma (stringify_props kvs) @ ''}'')"
| "stringify (JError m) = Some ''{}''"
| "stringify_elems [] = []"
| "stringify_elems (x # xs) =
     (case stringify x of None \<Rightarrow> ''null'' | Some t \<Rightarrow> t) # stringify_elems xs"
| "stringify_props [] = []"
| "stringify_props ((k, v) # kvs) =
     (case stringify v of None \<Rightarrow> stringify_props kvs
      | Some t \<Rightarrow> (quote k @ CHR '':'' # t) # stringify_props kvs)"

section \<open>Window snapshots (ActiveWindow.ts)\<close>

text \<open>
  The declared field types are not enforced at run time (the sentinel of
  \<open>resetLastWindow\<close> and the windows of the test suite leave fields out), so every
  field but the id is optional; \<open>None\<close> is \<open>undefined\<close>.
\<close>

record ActiveApp =
  name :: string
  processId :: "int option"
  path :: "string option"

record ActiveWindow =
  title :: "string option"
  win_id :: int
  bounds :: "(int \<times> int \<times> int \<times> int) option"
  owner :: "ActiveApp option"
  memoryUsage :: "int option"
  url :: "string option"
  platform :: "string option"

definition isMac :: "ActiveWindow \<Rightarrow> bool" where
  "isMac w = (case url w of None \<Rightarrow> False | Some u \<Rightarrow> u \<noteq> [])"

datatype event =
    E_windowchange ActiveWindow
  | E_windoworurlchange ActiveWindow
  | E_windowinactive string
  | E_check
  | E_idle
  | E_awake
  | E_error jsval
  | E_start
  | E_stop

section \<open>The state of the monitor, its mouse checker and the runtime\<close>

text \<open>
  The callbacks handed to \<open>setTimeout\<close> and \<open>setInterval\<close>: \<open>this.run\<close>,
  \<open>this.idleUser\<close>, and the sampling closure of \<open>MouseChecker.start\<close>. A pending timer is
  its handle, its callback and its delay in milliseconds.
\<close>

datatype callback = RunCb | IdleUserCb | SampleCb

type_synonym timer = "nat \<times> callback \<times> nat"

type_synonym point = "int \<times> int"

text \<open>
  One record holds the fields of the \<open>ActiveWindowMonitor\<close> object, of the
  \<open>MouseChecker\<close> it is given as \<open>services.mouseChecker\<close>, and the part of the runtime
  both act on.
  \<^item> \<open>currentState\<close>, \<open>lastWindow\<close>, \<open>checkTimeout\<close>, \<open>idleTimeout\<close> are \<open>undefined\<close>
    (\<open>None\<close>) until first assigned.
  \<^item> \<open>isUserAwake\<close> is \<open>boolean | null\<close> and starts \<open>undefined\<close>; the code only tests
    \<open>!this.isUserAwake\<close> and \<open>this.isUserAwake === false\<close>, which do not tell \<open>null\<close>
    from \<open>undefined\<close>, so both are \<open>None\<close>.
  \<^item> \<open>onceCheck\<close> counts the listeners that \<open>run\<close> registered with
    \<open>this.once('check', ...)\<close> and that have not fired yet.
  \<^item> \<open>emitted\<close> lists the calls of \<open>this.emit\<close> in order: what a subscriber to
    every event of the monitor observes. Subscribers are taken not to call back into
    the monitor, and not to throw, while an event is delivered.
  \<^item> \<open>mousemoveListener\<close> says whether \<open>awakeUser\<close> is still subscribed to the
    mouse checker's 'mousemove'; \<open>mousemoves\<close> counts the mouse checker's calls of
    \<open>this.emit('mousemove')\<close>.
  \<^item> \<open>timers\<close> are the pending timeouts and live intervals, \<open>nextHandle\<close> the next
    fresh handle, \<open>pending\<close> the number of window queries that were issued by \<open>check\<close>
    and have not settled yet (each one a suspended \<open>check\<close> at its \<open>await\<close>).
\<close>

record monitor =
  checkInterval :: nat
  idleAfter :: nat
  currentState :: "string option"
  lastWindow :: "ActiveWindow option"
  isUserAwake :: "bool option"
  checkTimeout :: "nat option"
  idleTimeout :: "nat option"
  lastError :: jsval
  onceCheck :: nat
  emitted :: "event list"
  lastMousePos :: "point option"
  mousePositionInterval :: "nat option"
  mousemoveListener :: bool
  mousemoves :: nat
  timers :: "timer list"
  nextHandle :: nat
  pending :: nat

definition START :: string where
  "START = ''start''"

definition STOP :: string where
  "STOP = ''stop''"

definition IDLE_AFTER_MS :: nat where
  "IDLE_AFTER_MS = 1000 * 60 * 5"

text \<open>
  The constructor, which subscribes \<open>awakeUser\<close> to the mouse checker, together with
  the field initialisers of both classes.
\<close>

definition new_monitor :: "nat \<Rightarrow> nat \<Rightarrow> monitor" where
  "new_monitor ci ia =
     \<lparr> checkInterval = ci, idleAfter = ia, currentState = None, lastWindow = None,
       isUserAwake = None, checkTimeout = None, idleTimeout = None, lastError = JObj [],
       onceCheck = 0, emitted = [], lastMousePos = None, mousePositionInterval = None,
       mousemoveListener = True, mousemoves = 0, timers = [], nextHandle = 0,
       pending = 0 \<rparr>"

subsection \<open>Timers and emission\<close>

text \<open>
  The delay a timer of the runtime really gets: Node.js replaces a delay below 1 or above
  \<open>2\<^sup>3\<^sup>1 - 1\<close> milliseconds by 1.
\<close>

definition timeout_delay :: "nat \<Rightarrow> nat" where
  "timeout_delay d = (if d < 1 \<or> 2147483647 < d then 1 else d)"

definition setTimeout :: "callback \<Rightarrow> nat \<Rightarrow> monitor \<Rightarrow> nat \<times> monitor" where
  "setTimeout cb d s =
     (nextHandle s,
      s\<lparr>timers := timers s @ [(nextHandle s, cb, timeout_delay d)],
        nextHandle := nextHandle s + 1\<rparr>)"

text \<open>
  \<open>clearTimeout\<close> and \<open>clearInterval\<close>: nothing happens for \<open>undefined\<close> or for the
  handle of a timer that has fired or was cleared.
\<close>

definition clearTimeout :: "nat option \<Rightarrow> monitor \<Rightarrow> monitor" where
  "clearTimeout h s =
     (case h of None \<Rightarrow> s
      | Some k \<Rightarrow> s\<lparr>timers := filter (\<lambda>t. fst t \<noteq> k) (timers s)\<rparr>)"

text \<open>
  \<open>setInterval\<close> registers its callback like \<open>setTimeout\<close>; the entry stays in \<open>timers\<close>
  when it comes due, until \<open>clearInterval\<close> removes it.
\<close>

definition setInterval :: "callback \<Rightarrow> nat \<Rightarrow> monitor \<Rightarrow> nat \<times> monitor" where
  "setInterval cb d s =
     (nextHandle s,
      s\<lparr>timers := timers s @ [(nextHandle s, cb, timeout_delay d)],
        nextHandle := nextHandle s + 1\<rparr>)"

definition clearInterval :: "nat option \<Rightarrow> monitor \<Rightarrow> monitor" where
  "clearInterval h s = clearTimeout h s"

definition emit :: "event \<Rightarrow> monitor \<Rightarrow> monitor" where
  "emit e s = s\<lparr>emitted := emitted s @ [e]\<rparr>"

text \<open>
  The listener that \<open>run\<close> registers once for 'check':
  \<open>this.checkTimeout = setTimeout(this.run, this.checkInterval)\<close>; \<open>reschedule n\<close> runs
  \<open>n\<close> of them.
\<close>

fun reschedule :: "nat \<Rightarrow> monitor \<Rightarrow> monitor" where
  "reschedule 0 s = s"
| "reschedule (Suc n) s =
     reschedule n
       (let (h, s') = setTimeout RunCb (checkInterval s) s in s'\<lparr>checkTimeout := Some h\<rparr>)"

text \<open>
  \<open>this.emit('check')\<close>: the subscribers see the event, and every once-listener
  registered by \<open>run\<close> is removed and invoked.
\<close>

definition emit_check :: "monitor \<Rightarrow> monitor" where
  "emit_check s = reschedule (onceCheck s) ((emit E_check s)\<lparr>onceCheck := 0\<rparr>)"

subsection \<open>ActiveWindowMonitor\<close>

definition sentinel :: ActiveWindow where
  "sentinel =
     \<lparr> title = Some [], win_id = - 1, bounds = None,
       owner = Some \<lparr> name = [], processId = None, path = None \<rparr>,
       memoryUsage = None, url = None, platform = None \<rparr>"

definition resetLastWindow :: "monitor \<Rightarrow> monitor" where
  "resetLastWindow s = s\<lparr>lastWindow := Some sentinel\<rparr>"

definition setDefaults :: "monitor \<Rightarrow> monitor" where
  "setDefaults s =
     (let s1 = s\<lparr>currentState := Some START\<rparr>;
          s2 = s1\<lparr>isUserAwake := None\<rparr>;
          s3 = resetLastWindow s2
      in clearTimeout (checkTimeout s3) s3)"

definition activeWindowChanged :: "ActiveWindow \<Rightarrow> ActiveWindow \<Rightarrow> bool" where
  "activeWindowChanged activeWindow lw = (win_id activeWindow \<noteq> win_id lw)"

definition activeWindowOrUrlChanged :: "ActiveWindow \<Rightarrow> ActiveWindow \<Rightarrow> bool" where
  "activeWindowOrUrlChanged activeWindow lw =
     (let urlChanged = (url activeWindow \<noteq> url lw);
          windowChanged = (win_id activeWindow \<noteq> win_id lw)
      in urlChanged \<or> windowChanged)"

definition awakeUser :: "monitor \<Rightarrow> monitor" where
  "awakeUser s =
     (if isUserAwake s \<noteq> Some True then
        (let s1 = (if isUserAwake s = Some False then emit E_awake s else s);
             s2 = s1\<lparr>isUserAwake := Some True\<rparr>;
             s3 = clearTimeout (idleTimeout s2) s2;
             (h, s4) = setTimeout IdleUserCb (idleAfter s3) s3
         in s4\<lparr>idleTimeout := Some h\<rparr>)
      else s)"

definition idleUser :: "monitor \<Rightarrow> monitor" where
  "idleUser s =
     (let s1 = s\<lparr>isUserAwake := Some False\<rparr>;
          s2 = resetLastWindow s1
      in if currentState s2 = Some START then emit E_idle s2 else s2)"

text \<open>
  \<open>check\<close> up to its \<open>await\<close>: the window query is issued and the call is suspended.
\<close>

definition check :: "monitor \<Rightarrow> monitor" where
  "check s = s\<lparr>pending := pending s + 1\<rparr>"

text \<open>
  \<open>run\<close>: \<open>check\<close> is an async function, so the \<open>try\<close> around its call catches
  nothing.
\<close>

definition run :: "monitor \<Rightarrow> monitor" where
  "run s =
     (if currentState s \<noteq> Some START then s
      else check (s\<lparr>onceCheck := onceCheck s + 1\<rparr>))"

text \<open>The \<open>catch\<close> block of \<open>check\<close>, entered with the value thrown.\<close>

definition check_rejected :: "jsval \<Rightarrow> monitor \<Rightarrow> monitor" where
  "check_rejected err s =
     (let s1 = setDefaults s;
          s2 = emit_check s1
      in if stringify err \<noteq> stringify (lastError s2)
         then emit (E_error err) (s2\<lparr>lastError := err\<rparr>)
         else s2)"

text \<open>
  \<open>check\<close> after its \<open>await\<close>, when the query resolved with \<open>activeWinResult\<close>
  (\<open>None\<close> is \<open>undefined\<close>). Reading \<open>this.lastWindow.url\<close> while \<open>lastWindow\<close> is still
  \<open>undefined\<close> throws a TypeError inside the \<open>try\<close>, which the \<open>catch\<close> block handles.
\<close>

definition check_resolved :: "ActiveWindow option \<Rightarrow> monitor \<Rightarrow> monitor" where
  "check_resolved activeWinResult s =
     (let s1 = emit_check s in
      if isUserAwake s1 \<noteq> Some True then s1
      else
        (let s2 = s1\<lparr>isUserAwake := None\<rparr> in
         case activeWinResult of
           None \<Rightarrow> emit (E_windowinactive ''Active window not detected.'') (resetLastWindow s2)
         | Some activeWindow \<Rightarrow>
             (case lastWindow s2 of
                None \<Rightarrow> check_rejected (JError ''TypeError'') s2
              | Some lw \<Rightarrow>
                  (let s3 =
                     (if activeWindowOrUrlChanged activeWindow lw then
                        (let s4 = emit (E_windoworurlchange activeWindow) s2;
                             s5 = (if activeWindowChanged activeWindow lw
                                   then emit (E_windowchange activeWindow) s4 else s4)
                         in s5\<lparr>lastWindow := Some activeWindow\<rparr>)
                      else s2)
                   in s3\<lparr>lastError := JObj []\<rparr>))))"

subsection \<open>MouseChecker (MouseChecker.ts)\<close>

definition MouseChecker_start :: "monitor \<Rightarrow> monitor" where
  "MouseChecker_start s =
     (let (h, s') = setInterval SampleCb 2000 s in s'\<lparr>mousePositionInterval := Some h\<rparr>)"

definition MouseChecker_stop :: "monitor \<Rightarrow> monitor" where
  "MouseChecker_stop s =
     (case mousePositionInterval s of
        None \<Rightarrow> s
      | Some h \<Rightarrow> (clearInterval (Some h) s)\<lparr>mousePositionInterval := None\<rparr>)"

text \<open>\<open>this.emit('mousemove')\<close> of the mouse checker, with its one possible listener.\<close>

definition emit_mousemove :: "monitor \<Rightarrow> monitor" where
  "emit_mousemove s =
     (let s1 = s\<lparr>mousemoves := mousemoves s + 1\<rparr>
      in if mousemoveListener s1 then awakeUser s1 else s1)"

text \<open>
  The body of the sampling interval, with \<open>mousePos\<close> the value of
  \<open>screen.getCursorScreenPoint()\<close>.
\<close>

definition sample :: "point \<Rightarrow> monitor \<Rightarrow> monitor" where
  "sample mousePos s =
     (if (case lastMousePos s of
            None \<Rightarrow> True
          | Some lp \<Rightarrow> fst mousePos \<noteq> fst lp \<and> snd mousePos \<noteq> snd lp)
      then (emit_mousemove s)\<lparr>lastMousePos := Some mousePos\<rparr>
      else s)"

subsection \<open>The public operations of the monitor\<close>

definition start :: "monitor \<Rightarrow> monitor" where
  "start s = emit E_start (run (MouseChecker_start (setDefaults s)))"

definition stop :: "monitor \<Rightarrow> monitor" where
  "stop s =
     (let s1 = s\<lparr>currentState := Some STOP\<rparr>;
          s2 = clearTimeout (checkTimeout s1) s1;
          s3 = clearTimeout (idleTimeout s2) s2;
          s4 = MouseChecker_stop s3
      in emit E_stop s4)"

text \<open>
  \<open>destroy\<close>: \<open>removeAllListeners\<close> on the mouse checker and on the monitor. On the
  monitor that removes the subscribers and the pending once-listeners of \<open>run\<close>.
\<close>

definition destroy :: "monitor \<Rightarrow> monitor" where
  "destroy s = s\<lparr>mousemoveListener := False, onceCheck := 0\<rparr>"

subsection \<open>What can happen to a monitor\<close>

text \<open>
  The calls a client makes and the events the runtime delivers. \<open>Fire h\<close> is the timeout
  with handle \<open>h\<close> coming due, \<open>Tick h p\<close> the sampling interval \<open>h\<close> coming due with
  the cursor at \<open>p\<close>, \<open>Resolve r\<close> and \<open>Reject e\<close> the settlement of one outstanding window
  query. An action that cannot happen in a state gives \<open>None\<close>. There is no clock: a
  pending timer may come due at any moment and a query may take any time to settle, so
  the runs of the model cover every timing.
\<close>

datatype action =
    CallStart
  | CallStop
  | CallDestroy
  | Fire nat
  | Tick nat point
  | Resolve "ActiveWindow option"
  | Reject jsval

definition remove_timer :: "nat \<Rightarrow> monitor \<Rightarrow> monitor" where
  "remove_timer h s = s\<lparr>timers := filter (\<lambda>t. fst t \<noteq> h) (timers s)\<rparr>"

fun step :: "action \<Rightarrow> monitor \<Rightarrow> monitor option" where
  "step CallStart s = Some (start s)"
| "step CallStop s = Some (stop s)"
| "step CallDestroy s = Some (destroy s)"
| "step (Fire h) s =
     (case find (\<lambda>t. fst t = h) (timers s) of
        None \<Rightarrow> None
      | Some (_, cb, _) \<Rightarrow>
          (case cb of
             RunCb \<Rightarrow> Some (run (remove_timer h s))
           | IdleUserCb \<Rightarrow> Some (idleUser (remove_timer h s))
           | SampleCb \<Rightarrow> None))"
| "step (Tick h p) s =
     (case find (\<lambda>t. fst t = h) (timers s) of
        None \<Rightarrow> None
      | Some (_, cb, _) \<Rightarrow> (if cb = SampleCb then Some (sample p s) else None))"
| "step (Resolve r) s =
     (if pending s = 0 then None
      else Some (check_resolved r (s\<lparr>pending := pending s - 1\<rparr>)))"
| "step (Reject e) s =
     (if pending s = 0 then None
      else Some (check_rejected e (s\<lparr>pending := pending s - 1\<rparr>)))"

fun exec :: "action list \<Rightarrow> monitor \<Rightarrow> monitor option" where
  "exec [] s = Some s"
| "exec (a # as) s = (case step a s of None \<Rightarrow> None | Some s' \<Rightarrow> exec as s')"

text \<open>
  A run in which \<open>start()\<close> is only ever called while no window query is outstanding.
\<close>

fun settled_starts :: "action list \<Rightarrow> monitor \<Rightarrow> bool" where
  "settled_starts [] s = True"
| "settled_starts (a # as) s =
     ((if a = CallStart then pending s = 0 else True) \<and>
      (case step a s of None \<Rightarrow> True | Some s' \<Rightarrow> settled_starts as s'))"

text \<open>
  The invariant of the self-rescheduling loop: at most one query is outstanding, every
  pending once-listener belongs to an outstanding query, and a pending \<open>run\<close> timeout
  means that no query is outstanding and that \<open>checkTimeout\<close> holds its handle.
\<close>

definition loop_inv :: "monitor \<Rightarrow> bool" where
  "loop_inv s =
     (pending s \<le> 1 \<and> onceCheck s \<le> pending s \<and>
      (\<forall>t \<in> set (timers s).
         fst (snd t) = RunCb \<longrightarrow> pending s = 0 \<and> checkTimeout s = Some (fst t)))"

text \<open>The settlements of a window query among the actions.\<close>

fun is_settlement :: "action \<Rightarrow> bool" where
  "is_settlement (Resolve r) = True"
| "is_settlement (Reject e) = True"
| "is_settlement a = False"

text \<open>
  A state in which the next 'check' arms a check timeout: a once-listener of \<open>run\<close> is
  registered, and \<open>lastWindow\<close> is defined, so that processing a result cannot throw.
\<close>

definition listening :: "monitor \<Rightarrow> bool" where
  "listening s = (0 < onceCheck s \<and> lastWindow s \<noteq> None)"

text \<open>
  The handles of the runtime are fresh: pending timers have different handles, all below
  \<open>nextHandle\<close>, and \<open>idleTimeout\<close> refers to nothing but an idle timeout.
\<close>

definition wf_handles :: "monitor \<Rightarrow> bool" where
  "wf_handles s =
     (distinct (map fst (timers s)) \<and>
      (\<forall>t \<in> set (timers s).
         fst t < nextHandle s \<and> (idleTimeout s = Some (fst t) \<longrightarrow> fst (snd t) = IdleUserCb)) \<and>
      (case idleTimeout s of None \<Rightarrow> True | Some h \<Rightarrow> h < nextHandle s))"

text \<open>
  A monitor with one check loop: the loop invariant, fresh handles, and a last-known
  window once it has been started.
\<close>

definition single_loop :: "monitor \<Rightarrow> bool" where
  "single_loop s =
     (loop_inv s \<and> wf_handles s \<and> (currentState s = Some START \<longrightarrow> lastWindow s \<noteq> None))"



text \<open>
  Among the 'idle' and 'awake' events of a trace, the latest is 'idle'; and the property
  of a running monitor whose flag is Idle that its trace is such.
\<close>

definition idle_is_latest :: "event list \<Rightarrow> bool" where
  "idle_is_latest es =
     (case rev (filter (\<lambda>e. e = E_idle \<or> e = E_awake) es) of
        [] \<Rightarrow> False
      | e # _ \<Rightarrow> e = E_idle)"

definition gate_inv :: "monitor \<Rightarrow> bool" where
  "gate_inv s =
     (if currentState s = Some START \<and> isUserAwake s = Some False
      then idle_is_latest (emitted s) else True)"

text \<open>
  A window as the mock of the test suite produces it (an id and a url only), and a
  monitor constructed with the intervals the test suite uses.
\<close>

definition window_1 :: ActiveWindow where
  "window_1 =
     \<lparr> title = None, win_id = 1, bounds = None, owner = None, memoryUsage = None,
       url = Some ''window 1'', platform = None \<rparr>"

definition test_monitor :: monitor where
  "test_monitor = new_monitor 100 1000"

section \<open>What each operation changes\<close>

lemmas ops =
  start_def stop_def destroy_def run_def check_def check_resolved_def check_rejected_def
  emit_check_def emit_def awakeUser_def idleUser_def setDefaults_def resetLastWindow_def
  timeout_delay_def setTimeout_def clearTimeout_def setInterval_def clearInterval_def
  remove_timer_def
  MouseChecker_start_def MouseChecker_stop_def emit_mousemove_def sample_def new_monitor_def
  test_monitor_def window_1_def sentinel_def IDLE_AFTER_MS_def
  activeWindowOrUrlChanged_def activeWindowChanged_def START_def STOP_def Let_def

lemma clearTimeout_fields:
  "emitted (clearTimeout h s) = emitted s"
  "isUserAwake (clearTimeout h s) = isUserAwake s"
  "lastWindow (clearTimeout h s) = lastWindow s"
  "lastError (clearTimeout h s) = lastError s"
  "currentState (clearTimeout h s) = currentState s"
  "pending (clearTimeout h s) = pending s"
  "onceCheck (clearTimeout h s) = onceCheck s"
  "checkTimeout (clearTimeout h s) = checkTimeout s"
  "idleTimeout (clearTimeout h s) = idleTimeout s"
  "checkInterval (clearTimeout h s) = checkInterval s"
  "idleAfter (clearTimeout h s) = idleAfter s"
  "nextHandle (clearTimeout h s) = nextHandle s"
  "mousePositionInterval (clearTimeout h s) = mousePositionInterval s"
  by (simp_all add: clearTimeout_def split: option.splits)

lemma clearTimeout_timers:
  "timers (clearTimeout h s) = filter (\<lambda>t. Some (fst t) \<noteq> h) (timers s)"
  by (simp add: clearTimeout_def split: option.splits)

lemma reschedule_fields:
  "emitted (reschedule n s) = emitted s"
  "isUserAwake (reschedule n s) = isUserAwake s"
  "lastWindow (reschedule n s) = lastWindow s"
  "lastError (reschedule n s) = lastError s"
  "currentState (reschedule n s) = currentState s"
  "pending (reschedule n s) = pending s"
  "onceCheck (reschedule n s) = onceCheck s"
  "idleTimeout (reschedule n s) = idleTimeout s"
  by (induction n arbitrary: s; simp add: setTimeout_def)+

lemma emit_check_fields:
  "emitted (emit_check s) = emitted s @ [E_check]"
  "isUserAwake (emit_check s) = isUserAwake s"
  "lastWindow (emit_check s) = lastWindow s"
  "lastError (emit_check s) = lastError s"
  "currentState (emit_check s) = currentState s"
  "pending (emit_check s) = pending s"
  "onceCheck (emit_check s) = 0"
  "idleTimeout (emit_check s) = idleTimeout s"
  by (simp_all add: emit_check_def emit_def reschedule_fields)

lemma emit_check_no_listener:
  "onceCheck s = 0 \<Longrightarrow>
     timers (emit_check s) = timers s \<and> checkTimeout (emit_check s) = checkTimeout s \<and>
     nextHandle (emit_check s) = nextHandle s"
  by (simp add: emit_check_def emit_def)

lemma emit_check_one_listener:
  "onceCheck s = Suc 0 \<Longrightarrow>
     timers (emit_check s) = timers s @ [(nextHandle s, RunCb, timeout_delay (checkInterval s))] \<and>
     checkTimeout (emit_check s) = Some (nextHandle s) \<and>
     nextHandle (emit_check s) = nextHandle s + 1"
  by (simp add: emit_check_def emit_def setTimeout_def)

lemma setDefaults_fields:
  "emitted (setDefaults s) = emitted s"
  "isUserAwake (setDefaults s) = None"
  "lastWindow (setDefaults s) = Some sentinel"
  "lastError (setDefaults s) = lastError s"
  "currentState (setDefaults s) = Some START"
  "pending (setDefaults s) = pending s"
  "onceCheck (setDefaults s) = onceCheck s"
  "checkTimeout (setDefaults s) = checkTimeout s"
  "idleTimeout (setDefaults s) = idleTimeout s"
  "nextHandle (setDefaults s) = nextHandle s"
  "mousePositionInterval (setDefaults s) = mousePositionInterval s"
  "timers (setDefaults s) = filter (\<lambda>t. Some (fst t) \<noteq> checkTimeout s) (timers s)"
  by (simp_all add: setDefaults_def resetLastWindow_def clearTimeout_fields clearTimeout_timers)

lemma check_rejected_emitted:
  "emitted (check_rejected e s) =
     emitted s @ [E_check] @ (if stringify e \<noteq> stringify (lastError s) then [E_error e] else [])"
  by (simp add: check_rejected_def Let_def emit_def emit_check_fields setDefaults_fields)

lemma check_rejected_lastError:
  "lastError (check_rejected e s) =
     (if stringify e \<noteq> stringify (lastError s) then e else lastError s)"
  by (simp add: check_rejected_def Let_def emit_def emit_check_fields setDefaults_fields)





lemma find_handle:
  "find (\<lambda>t. fst t = h) ts = Some (k, cb, d) \<Longrightarrow> (h, cb, d) \<in> set ts"
  by (induction ts) (auto split: if_splits)

section \<open>The gate and change detection of one check iteration\<close>

text \<open>
  Claim C8. When the window query resolves while the idle/awake gate is not Awake
  (\<open>isUserAwake\<close> is not \<open>true\<close>), the iteration emits 'check' and no other event,
  whatever the query returned, and compares nothing: the last-known window, the gate and
  the remembered error stay as they were.
\<close>

theorem check_resolved_gate_closed:
  "isUserAwake s \<noteq> Some True \<Longrightarrow>
     emitted (check_resolved r s) = emitted s @ [E_check] \<and>
     lastWindow (check_resolved r s) = lastWindow s \<and>
     isUserAwake (check_resolved r s) = isUserAwake s \<and>
     lastError (check_resolved r s) = lastError s"
  by (simp add: check_resolved_def Let_def emit_check_fields)

theorem check_resolved_gate_closed_witness:
  "isUserAwake (start test_monitor) \<noteq> Some True \<and>
   emitted (check_resolved (Some window_1) (start test_monitor)) = [E_start, E_check] \<and>
   lastWindow (check_resolved (Some window_1) (start test_monitor)) = Some sentinel \<and>
   isUserAwake (check_resolved (Some window_1) (start test_monitor)) = None \<and>
   lastError (check_resolved (Some window_1) (start test_monitor)) = JObj []"
proof -
  have g: "isUserAwake (start test_monitor) \<noteq> Some True"
    by (simp add: ops)
  have e: "emitted (start test_monitor) = [E_start]"
    and w: "lastWindow (start test_monitor) = Some sentinel"
    and u: "isUserAwake (start test_monitor) = None"
    and l: "lastError (start test_monitor) = JObj []"
    by (simp_all add: ops)
  show ?thesis
    using check_resolved_gate_closed [OF g, of "Some window_1"] g e w u l by simp
qed

text \<open>
  Claim C6. When the query resolves with a window while the gate is Awake, after 'check'
  the iteration emits 'windoworurlchange' with the new snapshot exactly if its url or its
  id differs from the last-known window's, then 'windowchange' with the same snapshot
  exactly if the id differs; the last-known window becomes the new snapshot exactly on
  such a change.
\<close>

theorem check_resolved_change_detection:
  "isUserAwake s = Some True \<Longrightarrow> lastWindow s = Some lw \<Longrightarrow>
     emitted (check_resolved (Some w) s) =
       emitted s @ [E_check]
         @ (if url w \<noteq> url lw \<or> win_id w \<noteq> win_id lw then [E_windoworurlchange w] else [])
         @ (if win_id w \<noteq> win_id lw then [E_windowchange w] else []) \<and>
     lastWindow (check_resolved (Some w) s) =
       (if url w \<noteq> url lw \<or> win_id w \<noteq> win_id lw then Some w else Some lw)"
  by (simp add: check_resolved_def Let_def emit_check_fields emit_def
        activeWindowOrUrlChanged_def activeWindowChanged_def)

theorem check_resolved_change_detection_witness:
  "isUserAwake (awakeUser (check_resolved (Some window_1) (awakeUser (start test_monitor))))
     = Some True \<and>
   lastWindow (awakeUser (check_resolved (Some window_1) (awakeUser (start test_monitor))))
     = Some window_1 \<and>
   emitted (check_resolved (Some (window_1\<lparr>url := Some ''window 1-changed''\<rparr>))
      (awakeUser (check_resolved (Some window_1) (awakeUser (start test_monitor))))) =
     [E_start, E_check, E_windoworurlchange window_1, E_windowchange window_1, E_check,
      E_windoworurlchange (window_1\<lparr>url := Some ''window 1-changed''\<rparr>)] \<and>
   lastWindow (check_resolved (Some (window_1\<lparr>url := Some ''window 1-changed''\<rparr>))
      (awakeUser (check_resolved (Some window_1) (awakeUser (start test_monitor))))) =
     Some (window_1\<lparr>url := Some ''window 1-changed''\<rparr>)"
proof -
  let ?s = "awakeUser (check_resolved (Some window_1) (awakeUser (start test_monitor)))"
  have g: "isUserAwake ?s = Some True"
    by (simp add: ops)
  have w: "lastWindow ?s = Some window_1"
    by (simp add: ops)
  have e: "emitted ?s = [E_start, E_check, E_windoworurlchange window_1, E_windowchange window_1]"
    by (simp add: ops)
  have d: "url (window_1\<lparr>url := Some ''window 1-changed''\<rparr>) \<noteq> url window_1"
    "win_id (window_1\<lparr>url := Some ''window 1-changed''\<rparr>) = win_id window_1"
    by (simp_all add: window_1_def)
  show ?thesis
    using check_resolved_change_detection
      [OF g w, of "window_1\<lparr>url := Some ''window 1-changed''\<rparr>"] g w e d
    by simp
qed

section \<open>Rejections and the remembered error\<close>

text \<open>
  Claim C3 fails on the code. The remembered error starts as the empty object and the
  comparison is made on the serialisations, so the first rejection after \<open>start()\<close> is
  not reported when its value is the empty object or an \<open>Error\<close> instance without
  enumerable properties, and of two different \<open>Error\<close> instances in a row neither is
  reported; a first rejection with the string 'E1' is.
\<close>

theorem first_rejection_not_reported:
  "map_option emitted (exec [CallStart, Reject (JObj [])] (new_monitor 3000 IDLE_AFTER_MS))
     = Some [E_start, E_check] \<and>
   map_option emitted (exec [CallStart, Reject (JError ''boom'')] (new_monitor 3000 IDLE_AFTER_MS))
     = Some [E_start, E_check] \<and>
   map_option emitted
     (exec [CallStart, Reject (JError ''boom''), Fire 1, Reject (JError ''bang'')] test_monitor)
     = Some [E_start, E_check, E_check] \<and>
   map_option emitted (exec [CallStart, Reject (JStr ''E1'')] test_monitor)
     = Some [E_start, E_check, E_error (JStr ''E1'')]"
  by (simp add: ops quote_def)

text \<open>
  Claim C4, as the code has it. An iteration whose query resolves resets the remembered
  error to the empty object when the gate is Awake at that moment and the query returned
  a window; when the gate is not Awake or no window was returned the remembered error is
  left as it was.
\<close>

theorem check_resolved_clears_error_when_processed:
  "lastWindow s \<noteq> None \<Longrightarrow>
     lastError (check_resolved r s) =
       (if isUserAwake s = Some True \<and> r \<noteq> None then JObj [] else lastError s)"
  by (auto simp add: check_resolved_def Let_def emit_check_fields emit_def resetLastWindow_def
      split: option.splits)

theorem check_resolved_clears_error_when_processed_witness:
  "lastWindow (awakeUser (check_rejected (JStr ''E1'') (start test_monitor))) \<noteq> None \<and>
   lastError (awakeUser (check_rejected (JStr ''E1'') (start test_monitor))) = JStr ''E1'' \<and>
   lastError (check_resolved (Some window_1)
      (awakeUser (check_rejected (JStr ''E1'') (start test_monitor)))) = JObj []"
proof -
  let ?s = "awakeUser (check_rejected (JStr ''E1'') (start test_monitor))"
  have w: "lastWindow ?s \<noteq> None"
    by (simp add: ops)
  have g: "isUserAwake ?s = Some True"
    by (simp add: ops)
  have l: "lastError ?s = JStr ''E1''"
    by (simp add: ops quote_def)
  show ?thesis
    using check_resolved_clears_error_when_processed [OF w, of "Some window_1"] w g l by simp
qed

text \<open>
  The claim as the specification states it fails: an iteration that resolves while the
  gate is not Awake keeps the remembered error, so the same rejection after it is not
  reported again.
\<close>

theorem resolved_iteration_keeps_error_counterexample:
  "map_option lastError
     (exec [CallStart, Reject (JStr ''E1''), Fire 1, Resolve (Some window_1)] test_monitor)
     = Some (JStr ''E1'') \<and>
   map_option emitted
     (exec [CallStart, Reject (JStr ''E1''), Fire 1, Resolve (Some window_1), Fire 2,
            Reject (JStr ''E1'')] test_monitor)
     = Some [E_start, E_check, E_error (JStr ''E1''), E_check, E_check]"
  by (simp add: ops quote_def)


section \<open>The activity signal\<close>

lemma idle_is_latest_simps:
  "idle_is_latest (es @ [E_idle])"
  "idle_is_latest (es @ [E_check]) = idle_is_latest es"
  "idle_is_latest (es @ [E_start]) = idle_is_latest es"
  "idle_is_latest (es @ [E_stop]) = idle_is_latest es"
  by (simp_all add: idle_is_latest_def)

lemma gate_inv_new: "gate_inv (new_monitor ci ia)"
  by (simp add: gate_inv_def new_monitor_def)

lemma awakeUser_flag: "isUserAwake (awakeUser s) = Some True"
  by (simp add: awakeUser_def Let_def setTimeout_def clearTimeout_fields)

lemma sample_flag: "isUserAwake (sample p s) = isUserAwake s \<or> isUserAwake (sample p s) = Some True"
  by (simp add: sample_def emit_mousemove_def Let_def awakeUser_flag)

lemma sample_frame:
  "isUserAwake (sample p s) = isUserAwake s \<Longrightarrow>
     emitted (sample p s) = emitted s \<and> currentState (sample p s) = currentState s"
  by (auto simp add: sample_def emit_mousemove_def Let_def awakeUser_def setTimeout_def
      clearTimeout_fields emit_def split: if_splits)

lemma check_rejected_flag: "isUserAwake (check_rejected e s) = None"
  by (simp add: check_rejected_def Let_def emit_def emit_check_fields setDefaults_fields)

lemma check_resolved_flag:
  "isUserAwake (check_resolved r s) = (if isUserAwake s = Some True then None else isUserAwake s)"
  by (simp add: check_resolved_def Let_def emit_def resetLastWindow_def emit_check_fields
      check_rejected_flag split: option.splits)

lemma check_resolved_state:
  "isUserAwake s \<noteq> Some True \<Longrightarrow> currentState (check_resolved r s) = currentState s"
  by (simp add: check_resolved_def Let_def emit_check_fields)

lemma start_flag: "isUserAwake (start s) = None"
  by (simp add: start_def run_def check_def emit_def MouseChecker_start_def setInterval_def
      setDefaults_fields)

lemma stop_state: "currentState (stop s) = Some STOP"
  by (simp add: stop_def Let_def emit_def MouseChecker_stop_def clearInterval_def
      clearTimeout_fields split: option.splits)

lemma gate_inv_step:
  assumes "gate_inv s" and "step a s = Some s'"
  shows "gate_inv s'"
proof (cases a)
  case CallStart
  then show ?thesis
    using assms(2) by (auto simp add: gate_inv_def start_flag)
next
  case CallStop
  then show ?thesis
    using assms(2) by (auto simp add: gate_inv_def stop_state START_def STOP_def)
next
  case CallDestroy
  then show ?thesis
    using assms by (auto simp add: gate_inv_def destroy_def)
next
  case (Fire h)
  from assms(2) Fire obtain k cb d
    where f: "find (\<lambda>t. fst t = h) (timers s) = Some (k, cb, d)"
    by (auto split: option.splits)
  show ?thesis
  proof (cases cb)
    case RunCb
    then have "s' = run (remove_timer h s)"
      using assms(2) Fire f by simp
    then show ?thesis
      using assms(1) by (simp add: gate_inv_def run_def check_def remove_timer_def)
  next
    case IdleUserCb
    then have "s' = idleUser (remove_timer h s)"
      using assms(2) Fire f by simp
    then show ?thesis
      by (simp add: gate_inv_def idleUser_def Let_def emit_def resetLastWindow_def
          remove_timer_def idle_is_latest_simps)
  next
    case SampleCb
    then show ?thesis
      using assms(2) Fire f by simp
  qed
next
  case (Tick h p)
  then have s': "s' = sample p s"
    using assms(2) by (auto split: option.splits if_splits)
  show ?thesis
    using sample_flag [of p s] sample_frame [of p s] assms(1)
    by (auto simp add: s' gate_inv_def)
next
  case (Resolve r)
  then have s': "s' = check_resolved r (s\<lparr>pending := pending s - 1\<rparr>)"
    using assms(2) by (auto split: if_splits)
  show ?thesis
  proof (cases "isUserAwake s = Some True")
    case True
    then show ?thesis
      by (simp add: s' gate_inv_def check_resolved_flag)
  next
    case False
    then show ?thesis
      using assms(1)
      by (simp add: s' gate_inv_def check_resolved_flag check_resolved_state
          check_resolved_def Let_def emit_check_fields idle_is_latest_simps)
  qed
next
  case (Reject e)
  then have "s' = check_rejected e (s\<lparr>pending := pending s - 1\<rparr>)"
    using assms(2) by (auto split: if_splits)
  then show ?thesis
    by (simp add: gate_inv_def check_rejected_flag)
qed

lemma gate_inv_exec: "gate_inv s \<Longrightarrow> exec as s = Some s' \<Longrightarrow> gate_inv s'"
proof (induction as arbitrary: s)
  case Nil
  then show ?case by simp
next
  case (Cons a as)
  from Cons.prems(2) obtain s1 where s1: "step a s = Some s1" and e: "exec as s1 = Some s'"
    by (auto split: option.splits)
  have "gate_inv s1"
    using Cons.prems(1) s1 by (rule gate_inv_step)
  then show ?case
    using e by (rule Cons.IH)
qed

lemma idle_only_by_timer:
  assumes "step a s = Some s'" and "isUserAwake s' = Some False" and "isUserAwake s \<noteq> Some False"
  shows "\<exists>h. a = Fire h \<and> s' = idleUser (remove_timer h s)"
proof (cases a)
  case CallStart
  then show ?thesis
    using assms by (auto simp add: start_flag)
next
  case CallStop
  then show ?thesis
    using assms
    by (auto simp add: stop_def Let_def emit_def MouseChecker_stop_def clearInterval_def
        clearTimeout_fields clearTimeout_def split: option.splits)
next
  case CallDestroy
  then show ?thesis
    using assms by (auto simp add: destroy_def)
next
  case (Fire h)
  from assms(1) Fire obtain k cb d
    where f: "find (\<lambda>t. fst t = h) (timers s) = Some (k, cb, d)"
    by (auto split: option.splits)
  show ?thesis
  proof (cases cb)
    case RunCb
    then have "s' = run (remove_timer h s)"
      using assms(1) Fire f by simp
    then show ?thesis
      using assms(2,3) by (simp add: run_def check_def remove_timer_def split: if_splits)
  next
    case IdleUserCb
    then show ?thesis
      using assms(1) Fire f by simp
  next
    case SampleCb
    then show ?thesis
      using assms(1) Fire f by simp
  qed
next
  case (Tick h p)
  then have "s' = sample p s"
    using assms(1) by (auto split: option.splits if_splits)
  then show ?thesis
    using sample_flag [of p s] assms(2,3) by auto
next
  case (Resolve r)
  then have "s' = check_resolved r (s\<lparr>pending := pending s - 1\<rparr>)"
    using assms(1) by (auto split: if_splits)
  then show ?thesis
    using assms(2,3) by (simp add: check_resolved_flag split: if_splits)
next
  case (Reject e)
  then have "s' = check_rejected e (s\<lparr>pending := pending s - 1\<rparr>)"
    using assms(1) by (auto split: if_splits)
  then show ?thesis
    using assms(2) by (simp add: check_rejected_flag)
qed

text \<open>
  Claim C7, as the code has it. A 'mousemove' notification while the flag is Awake changes
  nothing at all. While the flag is Idle (\<open>false\<close>) or Consumed (\<open>null\<close>) it sets the
  flag to Awake, cancels the idle timeout and arms a new one for \<open>idleAfter\<close> ms (the
  delay as the runtime takes it), and emits 'awake' exactly if the flag was Idle. The flag
  becomes Idle only when the idle timeout fires, which emits 'idle' if the monitor is
  running; so in every run, when a running monitor has the flag Idle, the latest of its
  'idle' and 'awake' events is 'idle', and the 'awake' it then emits is the first since.
\<close>

theorem awakeUser_gate:
  "(isUserAwake s = Some True \<longrightarrow> awakeUser s = s) \<and>
   (isUserAwake s \<noteq> Some True \<longrightarrow>
      isUserAwake (awakeUser s) = Some True \<and>
      idleTimeout (awakeUser s) = Some (nextHandle s) \<and>
      timers (awakeUser s) =
        filter (\<lambda>t. Some (fst t) \<noteq> idleTimeout s) (timers s)
          @ [(nextHandle s, IdleUserCb, timeout_delay (idleAfter s))] \<and>
      emitted (awakeUser s) =
        emitted s @ (if isUserAwake s = Some False then [E_awake] else [])) \<and>
   isUserAwake (idleUser s) = Some False \<and>
   emitted (idleUser s) = emitted s @ (if currentState s = Some START then [E_idle] else []) \<and>
   (step a s = Some s' \<and> isUserAwake s' = Some False \<and> isUserAwake s \<noteq> Some False \<longrightarrow>
      (\<exists>h. a = Fire h \<and> s' = idleUser (remove_timer h s))) \<and>
   (exec as (new_monitor ci ia) = Some s \<and> currentState s = Some START \<and>
    isUserAwake s = Some False \<longrightarrow> idle_is_latest (emitted s))"
proof -
  have t: "step a s = Some s' \<and> isUserAwake s' = Some False \<and> isUserAwake s \<noteq> Some False \<longrightarrow>
      (\<exists>h. a = Fire h \<and> s' = idleUser (remove_timer h s))"
    using idle_only_by_timer [of a s s'] by blast
  have r: "exec as (new_monitor ci ia) = Some s \<and> currentState s = Some START \<and>
    isUserAwake s = Some False \<longrightarrow> idle_is_latest (emitted s)"
    using gate_inv_exec [OF gate_inv_new, of as ci ia s] by (auto simp add: gate_inv_def)
  have w: "(isUserAwake s = Some True \<longrightarrow> awakeUser s = s) \<and>
   (isUserAwake s \<noteq> Some True \<longrightarrow>
      isUserAwake (awakeUser s) = Some True \<and>
      idleTimeout (awakeUser s) = Some (nextHandle s) \<and>
      timers (awakeUser s) =
        filter (\<lambda>t. Some (fst t) \<noteq> idleTimeout s) (timers s)
          @ [(nextHandle s, IdleUserCb, timeout_delay (idleAfter s))] \<and>
      emitted (awakeUser s) =
        emitted s @ (if isUserAwake s = Some False then [E_awake] else [])) \<and>
   isUserAwake (idleUser s) = Some False \<and>
   emitted (idleUser s) = emitted s @ (if currentState s = Some START then [E_idle] else [])"
    by (simp add: awakeUser_def idleUser_def resetLastWindow_def Let_def emit_def setTimeout_def
        clearTimeout_fields clearTimeout_timers)
  show ?thesis
    using w t r by blast
qed

theorem awakeUser_gate_witness:
  "isUserAwake (start test_monitor) \<noteq> Some True \<and>
   timers (awakeUser (start test_monitor)) = [(0, SampleCb, 2000), (1, IdleUserCb, 1000)] \<and>
   emitted (awakeUser (start test_monitor)) = [E_start] \<and>
   isUserAwake (awakeUser (start test_monitor)) = Some True \<and>
   awakeUser (awakeUser (start test_monitor)) = awakeUser (start test_monitor) \<and>
   emitted (awakeUser (idleUser (awakeUser (start test_monitor)))) = [E_start, E_idle, E_awake] \<and>
   map_option isUserAwake (exec [CallStart, Tick 0 (1, 1), Fire 1] (new_monitor 100 1000))
     = Some (Some False) \<and>
   map_option currentState (exec [CallStart, Tick 0 (1, 1), Fire 1] (new_monitor 100 1000))
     = Some (Some START) \<and>
   idle_is_latest (emitted (the (exec [CallStart, Tick 0 (1, 1), Fire 1] (new_monitor 100 1000))))"
proof -
  let ?s = "start test_monitor"
  let ?tr = "[CallStart, Tick 0 (1, 1), Fire 1]"
  let ?i = "new_monitor 100 1000"
  have g: "isUserAwake ?s \<noteq> Some True" "isUserAwake ?s \<noteq> Some False"
    and t: "timers ?s = [(0, SampleCb, 2000)]" "idleTimeout ?s = None" "nextHandle ?s = 1"
      "idleAfter ?s = 1000"
    and e: "emitted ?s = [E_start]"
    by (simp_all add: ops)
  have d: "timeout_delay 1000 = 1000"
    by (simp add: timeout_delay_def)
  have a: "isUserAwake (awakeUser ?s) = Some True"
    "timers (awakeUser ?s) = [(0, SampleCb, 2000), (1, IdleUserCb, 1000)]"
    "emitted (awakeUser ?s) = [E_start]"
    using awakeUser_gate [of ?s] g t e d by simp_all
  have n: "awakeUser (awakeUser ?s) = awakeUser ?s"
    using awakeUser_gate [of "awakeUser ?s"] a(1) by simp
  have c: "currentState (awakeUser ?s) = Some START"
    by (simp add: ops)
  have i: "isUserAwake (idleUser (awakeUser ?s)) = Some False"
    "emitted (idleUser (awakeUser ?s)) = [E_start, E_idle]"
    using awakeUser_gate [of "awakeUser ?s"] a(3) c by simp_all
  have w: "emitted (awakeUser (idleUser (awakeUser ?s))) = [E_start, E_idle, E_awake]"
    using awakeUser_gate [of "idleUser (awakeUser ?s)"] i by simp
  have f: "map_option isUserAwake (exec ?tr ?i) = Some (Some False)"
    and r: "map_option currentState (exec ?tr ?i) = Some (Some START)"
    by (simp_all add: ops)
  have m: "\<And>x :: monitor option. map_option isUserAwake x = Some (Some False) \<Longrightarrow> x = Some (the x)"
    by auto
  have x: "exec ?tr ?i = Some (the (exec ?tr ?i))"
    using f by (rule m)
  have f': "isUserAwake (the (exec ?tr ?i)) = Some False"
    using f x by (metis option.inject option.simps(9))
  have r': "currentState (the (exec ?tr ?i)) = Some START"
    using r x by (metis option.inject option.simps(9))
  have l: "idle_is_latest (emitted (the (exec ?tr ?i)))"
    using awakeUser_gate [where as = ?tr and ci = 100 and ia = 1000 and s = "the (exec ?tr ?i)"]
      x f' r'
    by blast
  show ?thesis
    using g(1) a n w f r l by simp
qed

text \<open>
  The claim as the specification states it fails: on a monitor that is not running the
  idle timeout sets the flag to Idle without emitting 'idle', and the next notification
  emits 'awake' with no 'idle' before it. The first run delivers 'mousemove' after
  \<open>stop()\<close>, as the test suite does; in the second the sampling interval of a first
  \<open>start()\<close> is still live after \<open>start(); stop()\<close>. And with \<open>idleAfter\<close> above
  \<open>2\<^sup>3\<^sup>1 - 1\<close> the idle timeout is armed for 1 ms.
\<close>

theorem awake_without_idle_counterexample:
  "emitted (awakeUser (idleUser (awakeUser (stop (start test_monitor)))))
     = [E_start, E_stop, E_awake] \<and>
   map_option emitted
     (exec [CallStart, CallStart, CallStop, Tick 0 (1, 1), Fire 2, Tick 0 (2, 2)] test_monitor)
     = Some [E_start, E_start, E_stop, E_awake] \<and>
   timers (awakeUser (start (new_monitor 3000 3000000000)))
     = [(0, SampleCb, 2000), (1, IdleUserCb, 1)]"
  by (simp add: ops)

text \<open>
  Claim C9 fails on the code: the sampling closure compares with \<open>&&\<close>, so a cursor that
  has moved along one axis only is not reported and the retained sample stays. After
  \<open>MouseChecker.start()\<close>, a first sample at (0, 0) and a second at (5, 0) give one
  'mousemove', not two.
\<close>

theorem sample_misses_move_along_one_axis:
  "mousemoves (sample (5, 0) (sample (0, 0) (MouseChecker_start test_monitor))) = 1 \<and>
   lastMousePos (sample (5, 0) (sample (0, 0) (MouseChecker_start test_monitor))) = Some (0, 0) \<and>
   mousemoves (sample (5, 7) (sample (0, 0) (MouseChecker_start test_monitor))) = 2"
  by (simp add: ops)

section \<open>The life cycle\<close>

lemma reschedule_arms:
  "0 < n \<Longrightarrow>
     \<exists>h. checkTimeout (reschedule n s) = Some h \<and>
         (h, RunCb, timeout_delay (checkInterval s)) \<in> set (timers (reschedule n s))"
proof (induction n arbitrary: s)
  case 0
  then show ?case by simp
next
  case (Suc n)
  let ?s1 = "s\<lparr>timers := timers s @ [(nextHandle s, RunCb, timeout_delay (checkInterval s))],
               nextHandle := nextHandle s + 1, checkTimeout := Some (nextHandle s)\<rparr>"
  have r: "reschedule (Suc n) s = reschedule n ?s1"
    by (simp add: setTimeout_def)
  show ?case
  proof (cases n)
    case 0
    then show ?thesis
      by (simp add: setTimeout_def)
  next
    case (Suc m)
    then have "\<exists>h. checkTimeout (reschedule n ?s1) = Some h \<and>
         (h, RunCb, timeout_delay (checkInterval ?s1)) \<in> set (timers (reschedule n ?s1))"
      by (intro Suc.IH) simp
    then show ?thesis
      using r by simp
  qed
qed

lemma emit_check_arms:
  assumes "0 < onceCheck s"
  shows "\<exists>h. checkTimeout (emit_check s) = Some h \<and>
           (h, RunCb, timeout_delay (checkInterval s)) \<in> set (timers (emit_check s))"
  using reschedule_arms [OF assms, of "(emit E_check s)\<lparr>onceCheck := 0\<rparr>"]
  by (simp add: emit_check_def emit_def)

lemma check_rejected_arms:
  assumes "0 < onceCheck s"
  shows "\<exists>h. checkTimeout (check_rejected e s) = Some h \<and>
           (h, RunCb, timeout_delay (checkInterval s)) \<in> set (timers (check_rejected e s))"
proof -
  have "0 < onceCheck (setDefaults s)"
    using assms by (simp add: setDefaults_fields)
  from emit_check_arms [OF this]
  have "\<exists>h. checkTimeout (emit_check (setDefaults s)) = Some h \<and>
           (h, RunCb, timeout_delay (checkInterval (setDefaults s)))
             \<in> set (timers (emit_check (setDefaults s)))" .
  moreover have "checkInterval (setDefaults s) = checkInterval s"
    by (simp add: setDefaults_def resetLastWindow_def clearTimeout_fields)
  ultimately show ?thesis
    by (simp add: check_rejected_def Let_def emit_def)
qed

lemma check_resolved_arms:
  assumes "0 < onceCheck s" and "lastWindow s \<noteq> None"
  shows "\<exists>h. checkTimeout (check_resolved r s) = Some h \<and>
           (h, RunCb, timeout_delay (checkInterval s)) \<in> set (timers (check_resolved r s))"
  using emit_check_arms [OF assms(1)] assms(2)
  by (auto simp add: check_resolved_def Let_def emit_def resetLastWindow_def emit_check_fields
      split: option.splits)

lemma sample_keeps:
  "onceCheck (sample p s) = onceCheck s \<and> checkInterval (sample p s) = checkInterval s \<and>
   lastWindow (sample p s) = lastWindow s"
  by (simp add: sample_def emit_mousemove_def Let_def awakeUser_def setTimeout_def emit_def
      clearTimeout_fields)

lemma listening_step:
  assumes "listening s" and "a \<noteq> CallDestroy" and "\<not> is_settlement a" and "step a s = Some s'"
  shows "listening s' \<and> checkInterval s' = checkInterval s"
proof (cases a)
  case CallStart
  then show ?thesis
    using assms(4)
    by (auto simp add: listening_def start_def run_def check_def emit_def MouseChecker_start_def
        setInterval_def setDefaults_fields setDefaults_def resetLastWindow_def clearTimeout_fields)
next
  case CallStop
  then show ?thesis
    using assms(1,4)
    by (auto simp add: listening_def stop_def Let_def emit_def MouseChecker_stop_def
        clearInterval_def clearTimeout_fields split: option.splits)
next
  case CallDestroy
  then show ?thesis
    using assms(2) by simp
next
  case (Fire h)
  from assms(4) Fire obtain k cb d
    where f: "find (\<lambda>t. fst t = h) (timers s) = Some (k, cb, d)"
    by (auto split: option.splits)
  show ?thesis
  proof (cases cb)
    case RunCb
    then have "s' = run (remove_timer h s)"
      using assms(4) Fire f by simp
    then show ?thesis
      using assms(1) by (simp add: listening_def run_def check_def remove_timer_def)
  next
    case IdleUserCb
    then have "s' = idleUser (remove_timer h s)"
      using assms(4) Fire f by simp
    then show ?thesis
      using assms(1)
      by (simp add: listening_def idleUser_def Let_def emit_def resetLastWindow_def
          remove_timer_def)
  next
    case SampleCb
    then show ?thesis
      using assms(4) Fire f by simp
  qed
next
  case (Tick h p)
  then have "s' = sample p s"
    using assms(4) by (auto split: option.splits if_splits)
  then show ?thesis
    using assms(1) sample_keeps [of p s] by (simp add: listening_def)
next
  case (Resolve r)
  then show ?thesis
    using assms(3) by simp
next
  case (Reject e)
  then show ?thesis
    using assms(3) by simp
qed

lemma listening_exec:
  assumes "listening s" and "\<forall>a \<in> set as. a \<noteq> CallDestroy \<and> \<not> is_settlement a"
    and "exec as s = Some s'"
  shows "listening s' \<and> checkInterval s' = checkInterval s"
  using assms
proof (induction as arbitrary: s)
  case Nil
  then show ?case by simp
next
  case (Cons a as)
  from Cons.prems(3) obtain s1 where s1: "step a s = Some s1" and e: "exec as s1 = Some s'"
    by (auto split: option.splits)
  have l: "listening s1 \<and> checkInterval s1 = checkInterval s"
    using Cons.prems(1,2) s1 by (intro listening_step [of s a s1]) auto
  then have "listening s' \<and> checkInterval s' = checkInterval s1"
    using Cons.prems(2) e by (intro Cons.IH [of s1]) auto
  then show ?case
    using l by simp
qed

lemma settlement_arms:
  assumes "listening s" and "is_settlement a" and "step a s = Some s'"
  shows "\<exists>h. checkTimeout s' = Some h \<and> (h, RunCb, timeout_delay (checkInterval s)) \<in> set (timers s')"
proof (cases a)
  case (Resolve r)
  then have s': "s' = check_resolved r (s\<lparr>pending := pending s - 1\<rparr>)"
    using assms(3) by (auto split: if_splits)
  show ?thesis
    using check_resolved_arms [of "s\<lparr>pending := pending s - 1\<rparr>" r] assms(1)
    by (simp add: s' listening_def)
next
  case (Reject e)
  then have s': "s' = check_rejected e (s\<lparr>pending := pending s - 1\<rparr>)"
    using assms(3) by (auto split: if_splits)
  show ?thesis
    using check_rejected_arms [of "s\<lparr>pending := pending s - 1\<rparr>" e] assms(1)
    by (simp add: s' listening_def)
qed (use assms(2) in simp_all)

lemma listening_start: "listening (start s) \<and> checkInterval (start s) = checkInterval s"
  by (simp add: listening_def start_def run_def check_def emit_def MouseChecker_start_def
      setInterval_def setDefaults_fields setDefaults_def resetLastWindow_def clearTimeout_fields)

lemma exec_snoc:
  "exec (as @ [b]) s = (case exec as s of None \<Rightarrow> None | Some s1 \<Rightarrow> step b s1)"
  by (induction as arbitrary: s) (auto split: option.splits)

text \<open>
  Claim C5, as the code has it. \<open>start()\<close> sets the state to running, the last-known
  window to the sentinel and the gate to neutral, cancels the pending check timeout (the
  one \<open>checkTimeout\<close> refers to) and arms no check timeout itself, starts the mouse
  checker's sampling, issues one window query with its once-listener, and emits 'start'.
  The check timeout is armed again, for \<open>checkInterval\<close> ms (the delay as the runtime
  takes it), when a window query next settles, whatever happens in between but
  \<open>destroy()\<close>.
\<close>

theorem start_resets_and_launches:
  "currentState (start s) = Some START \<and>
   lastWindow (start s) = Some sentinel \<and>
   isUserAwake (start s) = None \<and>
   filter (\<lambda>t. fst (snd t) = RunCb) (timers (start s)) =
     filter (\<lambda>t. fst (snd t) = RunCb \<and> Some (fst t) \<noteq> checkTimeout s) (timers s) \<and>
   mousePositionInterval (start s) = Some (nextHandle s) \<and>
   (nextHandle s, SampleCb, 2000) \<in> set (timers (start s)) \<and>
   pending (start s) = pending s + 1 \<and>
   onceCheck (start s) = onceCheck s + 1 \<and>
   emitted (start s) = emitted s @ [E_start] \<and>
   ((\<forall>a \<in> set as. a \<noteq> CallDestroy \<and> \<not> is_settlement a) \<and> exec as (start s) = Some s1 \<and>
    is_settlement b \<and> step b s1 = Some s2 \<longrightarrow>
      (\<exists>h. checkTimeout s2 = Some h \<and>
           (h, RunCb, timeout_delay (checkInterval s)) \<in> set (timers s2)))"
proof -
  have c: "\<exists>h. checkTimeout s2 = Some h \<and>
           (h, RunCb, timeout_delay (checkInterval s)) \<in> set (timers s2)"
    if q: "\<forall>a \<in> set as. a \<noteq> CallDestroy \<and> \<not> is_settlement a"
      and e: "exec as (start s) = Some s1" and b: "is_settlement b" and t: "step b s1 = Some s2"
  proof -
    have l: "listening (start s)" and i: "checkInterval (start s) = checkInterval s"
      using listening_start [of s] by simp_all
    have "listening s1 \<and> checkInterval s1 = checkInterval (start s)"
      using l q e by (rule listening_exec)
    then show ?thesis
      using settlement_arms [of s1 b s2] b t i by simp
  qed
  have f: "currentState (start s) = Some START \<and>
   lastWindow (start s) = Some sentinel \<and>
   isUserAwake (start s) = None \<and>
   filter (\<lambda>t. fst (snd t) = RunCb) (timers (start s)) =
     filter (\<lambda>t. fst (snd t) = RunCb \<and> Some (fst t) \<noteq> checkTimeout s) (timers s) \<and>
   mousePositionInterval (start s) = Some (nextHandle s) \<and>
   (nextHandle s, SampleCb, 2000) \<in> set (timers (start s)) \<and>
   pending (start s) = pending s + 1 \<and>
   onceCheck (start s) = onceCheck s + 1 \<and>
   emitted (start s) = emitted s @ [E_start]"
    by (auto simp add: start_def run_def check_def emit_def MouseChecker_start_def
        setInterval_def timeout_delay_def setDefaults_fields conj_commute)
  show ?thesis
    using f c by blast
qed

theorem start_resets_and_launches_witness:
  "timers (check_resolved None ((start test_monitor)\<lparr>pending := 0\<rparr>)) =
     [(0, SampleCb, 2000), (1, RunCb, 100)] \<and>
   checkTimeout (check_resolved None ((start test_monitor)\<lparr>pending := 0\<rparr>)) = Some 1 \<and>
   filter (\<lambda>t. fst (snd t) = RunCb)
     (timers (start (check_resolved None ((start test_monitor)\<lparr>pending := 0\<rparr>)))) = [] \<and>
   pending (start (check_resolved None ((start test_monitor)\<lparr>pending := 0\<rparr>))) = 1 \<and>
   isUserAwake (start (check_resolved None ((start test_monitor)\<lparr>pending := 0\<rparr>))) = None \<and>
   map_option checkTimeout
     (exec ([Tick 0 (1, 1)] @ [Resolve (Some window_1)])
        (start (check_resolved None ((start test_monitor)\<lparr>pending := 0\<rparr>)))) = Some (Some 4) \<and>
   map_option timers
     (exec ([Tick 0 (1, 1)] @ [Resolve (Some window_1)])
        (start (check_resolved None ((start test_monitor)\<lparr>pending := 0\<rparr>))))
     = Some [(0, SampleCb, 2000), (2, SampleCb, 2000), (3, IdleUserCb, 1000), (4, RunCb, 100)]"
proof -
  let ?s = "check_resolved None ((start test_monitor)\<lparr>pending := 0\<rparr>)"
  let ?as = "[Tick 0 (1, 1)]"
  let ?b = "Resolve (Some window_1)"
  let ?s1 = "the (exec ?as (start ?s))"
  let ?s2 = "the (step ?b ?s1)"
  have t: "timers ?s = [(0, SampleCb, 2000), (1, RunCb, 100)]"
    and c: "checkTimeout ?s = Some 1"
    and p: "pending ?s = 0"
    by (simp_all add: ops)
  have f: "filter (\<lambda>t. fst (snd t) = RunCb) (timers (start ?s)) = []"
    "pending (start ?s) = 1" "isUserAwake (start ?s) = None"
    using start_resets_and_launches [of ?s] t c p by simp_all
  have q: "\<forall>a \<in> set ?as. a \<noteq> CallDestroy \<and> \<not> is_settlement a"
    by simp
  have m: "\<And>(x :: monitor option) v. map_option checkTimeout x = Some v \<Longrightarrow> x = Some (the x)"
    by auto
  have e0: "map_option checkTimeout (exec ?as (start ?s)) = Some (Some 1)"
    by (simp add: ops)
  have e: "exec ?as (start ?s) = Some ?s1"
    using e0 by (rule m)
  have r1: "map_option checkTimeout (exec (?as @ [?b]) (start ?s)) = Some (Some 4)"
    and r2: "map_option timers (exec (?as @ [?b]) (start ?s))
      = Some [(0, SampleCb, 2000), (2, SampleCb, 2000), (3, IdleUserCb, 1000), (4, RunCb, 100)]"
    by (simp_all add: ops)
  have "exec (?as @ [?b]) (start ?s) = step ?b ?s1"
    using e by (metis exec_snoc option.simps(5))
  then have "map_option checkTimeout (step ?b ?s1) = Some (Some 4)"
    using r1 by (simp only:)
  then have x: "step ?b ?s1 = Some ?s2"
    by (rule m)
  have b: "is_settlement ?b"
    by simp
  have "\<exists>h. checkTimeout ?s2 = Some h \<and>
      (h, RunCb, timeout_delay (checkInterval ?s)) \<in> set (timers ?s2)"
    using start_resets_and_launches
      [where s = ?s and as = ?as and ?s1.0 = ?s1 and b = ?b and ?s2.0 = ?s2] q e b x
    by blast
  show ?thesis
    using t c f r1 r2 by simp
qed

text \<open>
  The claim as the specification states it fails: an idle timeout armed before \<open>start()\<close>
  is neither cancelled nor armed afresh by it, and fires in the new session. With a check
  every 3000 ms and idleness after 1000 ms: the first query resolves, the sampling tick at
  2000 ms reports a move and arms the idle timeout (handle 2), \<open>start()\<close> is called again,
  its query resolves, and at 3000 ms the old idle timeout fires and 'idle' is emitted.
\<close>

theorem start_keeps_idle_timer_counterexample:
  "map_option timers
     (exec [CallStart, Resolve (Some window_1), Tick 0 (1, 1), CallStart] (new_monitor 3000 1000))
     = Some [(0, SampleCb, 2000), (2, IdleUserCb, 1000), (3, SampleCb, 2000)] \<and>
   map_option emitted
     (exec [CallStart, Resolve (Some window_1), Tick 0 (1, 1), CallStart,
            Resolve (Some window_1), Fire 2] (new_monitor 3000 1000))
     = Some [E_start, E_check, E_start, E_check, E_idle]"
  by (simp add: ops)

text \<open>
  Claim C1 fails on the code. With \<open>stop()\<close> called while a query is outstanding: when
  the query resolves, 'check' is emitted after 'stop', a check timeout is armed, and with
  the gate Awake the change events follow; when it rejects, \<open>setDefaults\<close> puts the
  monitor back into the running state, 'check' and 'error' are emitted, and the armed
  timeout issues the next query. In the first run below the first query resolves, the
  sampling tick reports a move, the check timeout fires and issues the second query, and
  \<open>stop()\<close> is called before that one resolves.
\<close>

theorem stop_does_not_silence_pending_query:
  "map_option emitted
     (exec [CallStart, Resolve (Some window_1), Tick 0 (1, 1), Fire 1, CallStop,
            Resolve (Some window_1)] (new_monitor 3000 IDLE_AFTER_MS))
     = Some [E_start, E_check, E_stop, E_check, E_windoworurlchange window_1,
             E_windowchange window_1] \<and>
   map_option timers
     (exec [CallStart, Resolve (Some window_1), Tick 0 (1, 1), Fire 1, CallStop,
            Resolve (Some window_1)] (new_monitor 3000 IDLE_AFTER_MS))
     = Some [(3, RunCb, 3000)] \<and>
   map_option emitted (exec [CallStart, CallStop, Reject (JStr ''E1'')] test_monitor)
     = Some [E_start, E_stop, E_check, E_error (JStr ''E1'')] \<and>
   map_option currentState (exec [CallStart, CallStop, Reject (JStr ''E1'')] test_monitor)
     = Some (Some START) \<and>
   map_option pending (exec [CallStart, CallStop, Reject (JStr ''E1''), Fire 1] test_monitor)
     = Some 1"
  by (simp add: ops quote_def)

section \<open>The self-rescheduling loop\<close>

lemma loop_inv_new: "loop_inv (new_monitor ci ia)"
  by (simp add: loop_inv_def new_monitor_def)

lemma loop_inv_start:
  assumes "loop_inv s" and "pending s = 0"
  shows "loop_inv (start s)"
  using assms
  by (auto simp add: loop_inv_def start_def run_def check_def emit_def
        MouseChecker_start_def setInterval_def setTimeout_def setDefaults_fields)

lemma loop_inv_stop: "loop_inv s \<Longrightarrow> loop_inv (stop s)"
  by (auto simp add: loop_inv_def stop_def Let_def emit_def MouseChecker_stop_def clearInterval_def
      clearTimeout_fields clearTimeout_timers split: option.splits)

lemma loop_inv_destroy: "loop_inv s \<Longrightarrow> loop_inv (destroy s)"
  by (simp add: loop_inv_def destroy_def)

lemma loop_inv_awakeUser: "loop_inv s \<Longrightarrow> loop_inv (awakeUser s)"
  by (auto simp add: loop_inv_def awakeUser_def Let_def emit_def setTimeout_def
      clearTimeout_fields clearTimeout_timers)

lemma loop_inv_sample:
  assumes "loop_inv s"
  shows "loop_inv (sample p s)"
proof -
  have "loop_inv (s\<lparr>mousemoves := mousemoves s + 1\<rparr>)"
    using assms by (simp add: loop_inv_def)
  then have "loop_inv (emit_mousemove s)"
    by (simp add: emit_mousemove_def Let_def loop_inv_awakeUser)
  then have "loop_inv ((emit_mousemove s)\<lparr>lastMousePos := Some p\<rparr>)"
    by (simp add: loop_inv_def)
  then show ?thesis
    using assms by (simp add: sample_def)
qed

lemma loop_inv_idleUser: "loop_inv s \<Longrightarrow> loop_inv (idleUser s)"
  by (simp add: loop_inv_def idleUser_def Let_def emit_def resetLastWindow_def)

lemma loop_inv_remove_timer: "loop_inv s \<Longrightarrow> loop_inv (remove_timer h s)"
  by (auto simp add: loop_inv_def remove_timer_def)

text \<open>
  A \<open>run\<close> timeout that fires is the one \<open>checkTimeout\<close> refers to, so no other is left
  behind, and no query is outstanding when \<open>run\<close> issues the next one.
\<close>

lemma loop_inv_fire_run:
  assumes "loop_inv s" and "(h, RunCb, d) \<in> set (timers s)"
  shows "loop_inv (run (remove_timer h s))"
proof -
  from assms have p: "pending s = 0" and c: "checkTimeout s = Some h"
    by (auto simp add: loop_inv_def)
  from assms(1) c have "\<forall>t \<in> set (timers s). fst (snd t) = RunCb \<longrightarrow> fst t = h"
    by (auto simp add: loop_inv_def)
  then have "\<forall>t \<in> set (timers (remove_timer h s)). fst (snd t) \<noteq> RunCb"
    by (auto simp add: remove_timer_def)
  then show ?thesis
    using assms(1) p by (auto simp add: loop_inv_def run_def check_def remove_timer_def)
qed

text \<open>
  The state in which a settled query is processed: nothing outstanding, at most one
  once-listener, and no \<open>run\<close> timeout beside a listener.
\<close>

lemma loop_inv_emit_check:
  assumes "pending s = 0" and "onceCheck s \<le> 1"
    and "\<forall>t \<in> set (timers s).
           fst (snd t) = RunCb \<longrightarrow> onceCheck s = 0 \<and> checkTimeout s = Some (fst t)"
  shows "loop_inv (emit_check s)"
proof -
  from assms(2) have "onceCheck s = 0 \<or> onceCheck s = Suc 0"
    by auto
  then show ?thesis
  proof
    assume "onceCheck s = 0"
    then show ?thesis
      using assms(1,3) by (auto simp add: loop_inv_def emit_check_fields emit_check_no_listener)
  next
    assume "onceCheck s = Suc 0"
    then show ?thesis
      using assms(1,3) by (auto simp add: loop_inv_def emit_check_fields emit_check_one_listener)
  qed
qed

lemma loop_inv_check_rejected:
  assumes "pending s = 0" and "onceCheck s \<le> 1"
    and "\<forall>t \<in> set (timers s).
           fst (snd t) = RunCb \<longrightarrow> onceCheck s = 0 \<and> checkTimeout s = Some (fst t)"
  shows "loop_inv (check_rejected e s)"
proof -
  have "loop_inv (emit_check (setDefaults s))"
    using assms by (intro loop_inv_emit_check) (auto simp add: setDefaults_fields)
  then show ?thesis
    by (simp add: check_rejected_def Let_def emit_def loop_inv_def)
qed

lemma loop_inv_check_resolved:
  assumes "pending s = 0" and "onceCheck s \<le> 1"
    and "\<forall>t \<in> set (timers s).
           fst (snd t) = RunCb \<longrightarrow> onceCheck s = 0 \<and> checkTimeout s = Some (fst t)"
  shows "loop_inv (check_resolved r s)"
proof -
  have i: "loop_inv (emit_check s)"
    using assms by (rule loop_inv_emit_check)
  have t: "loop_inv (check_rejected (JError ''TypeError'') ((emit_check s)\<lparr>isUserAwake := None\<rparr>))"
    using i
    by (intro loop_inv_check_rejected) (auto simp add: loop_inv_def emit_check_fields assms(1))
  show ?thesis
    using i t
    by (simp add: check_resolved_def Let_def emit_def resetLastWindow_def loop_inv_def
        split: option.splits)
qed

lemma loop_inv_settled:
  assumes "loop_inv s" and "pending s \<noteq> 0"
  shows "pending (s\<lparr>pending := pending s - 1\<rparr>) = 0"
    and "onceCheck (s\<lparr>pending := pending s - 1\<rparr>) \<le> 1"
    and "\<forall>t \<in> set (timers (s\<lparr>pending := pending s - 1\<rparr>)). fst (snd t) = RunCb \<longrightarrow>
           onceCheck (s\<lparr>pending := pending s - 1\<rparr>) = 0 \<and>
           checkTimeout (s\<lparr>pending := pending s - 1\<rparr>) = Some (fst t)"
  using assms by (auto simp add: loop_inv_def)

lemma loop_inv_step:
  assumes "loop_inv s" and "a = CallStart \<longrightarrow> pending s = 0" and "step a s = Some s'"
  shows "loop_inv s'"
proof (cases a)
  case CallStart
  then show ?thesis
    using assms by (auto simp add: loop_inv_start)
next
  case CallStop
  then show ?thesis
    using assms by (auto simp add: loop_inv_stop)
next
  case CallDestroy
  then show ?thesis
    using assms by (auto simp add: loop_inv_destroy)
next
  case (Fire h)
  from assms(3) Fire obtain k cb d
    where f: "find (\<lambda>t. fst t = h) (timers s) = Some (k, cb, d)"
    by (auto split: option.splits)
  then have m: "(h, cb, d) \<in> set (timers s)"
    by (rule find_handle)
  show ?thesis
  proof (cases cb)
    case RunCb
    then have "s' = run (remove_timer h s)"
      using assms(3) Fire f by simp
    then show ?thesis
      using loop_inv_fire_run [OF assms(1)] m RunCb by simp
  next
    case IdleUserCb
    then have "s' = idleUser (remove_timer h s)"
      using assms(3) Fire f by simp
    then show ?thesis
      using loop_inv_idleUser [OF loop_inv_remove_timer [OF assms(1)]] by simp
  next
    case SampleCb
    then show ?thesis
      using assms(3) Fire f by simp
  qed
next
  case (Tick h p)
  then show ?thesis
    using assms(1,3) by (auto split: option.splits if_splits simp add: loop_inv_sample)
next
  case (Resolve r)
  then show ?thesis
    using assms(1,3) loop_inv_settled [OF assms(1)]
    by (auto split: if_splits intro!: loop_inv_check_resolved)
next
  case (Reject e)
  then show ?thesis
    using assms(1,3) loop_inv_settled [OF assms(1)]
    by (auto split: if_splits intro!: loop_inv_check_rejected)
qed

text \<open>
  Claim C2 fails on the code. \<open>start()\<close> called while a window query is outstanding
  issues a second one, at once or after a \<open>stop()\<close>. Both once-listeners fire at the first
  settlement, so two check timeouts are armed, and when they have fired two queries are
  outstanding again.
\<close>

theorem start_during_query_doubles_loop:
  "map_option pending (exec [CallStart, CallStart] (new_monitor 3000 IDLE_AFTER_MS)) = Some 2 \<and>
   map_option pending (exec [CallStart, CallStop, CallStart] test_monitor) = Some 2 \<and>
   map_option timers
     (exec [CallStart, CallStop, CallStart, Resolve None, Resolve None] test_monitor)
     = Some [(1, SampleCb, 2000), (2, RunCb, 100), (3, RunCb, 100)] \<and>
   map_option pending
     (exec [CallStart, CallStop, CallStart, Resolve None, Resolve None, Fire 2, Fire 3]
        test_monitor) = Some 2"
  by (simp add: ops)

section \<open>Runs with a single loop\<close>

lemma wf_filter:
  assumes "wf_handles s" and "timers s' = filter P (timers s)"
    and "nextHandle s' = nextHandle s" and "idleTimeout s' = idleTimeout s"
  shows "wf_handles s'"
  using assms by (auto simp add: wf_handles_def distinct_map_filter split: option.splits)

lemma wf_add:
  assumes "wf_handles s" and "timers s' = filter P (timers s) @ [(nextHandle s, cb, d)]"
    and "nextHandle s' = nextHandle s + 1" and "idleTimeout s' = idleTimeout s"
  shows "wf_handles s'"
  using assms
  by (fastforce simp add: wf_handles_def distinct_map_filter split: option.splits)

lemma wf_add_idle:
  assumes "wf_handles s" and "timers s' = filter P (timers s) @ [(nextHandle s, IdleUserCb, d)]"
    and "nextHandle s' = nextHandle s + 1" and "idleTimeout s' = Some (nextHandle s)"
  shows "wf_handles s'"
  using assms
  by (fastforce simp add: wf_handles_def distinct_map_filter split: option.splits)


lemma wf_update:
  assumes "wf_handles s" and "timers s' = timers s"
    and "nextHandle s' = nextHandle s" and "idleTimeout s' = idleTimeout s"
  shows "wf_handles s'"
  using assms by (auto simp add: wf_handles_def split: option.splits)

lemma wf_clearTimeout: "wf_handles s \<Longrightarrow> wf_handles (clearTimeout h s)"
  by (rule wf_filter [where P = "\<lambda>t. Some (fst t) \<noteq> h"])
    (simp_all add: clearTimeout_timers clearTimeout_fields)

lemma wf_setDefaults: "wf_handles s \<Longrightarrow> wf_handles (setDefaults s)"
  by (rule wf_filter [where P = "\<lambda>t. Some (fst t) \<noteq> checkTimeout s"])
    (simp_all add: setDefaults_fields)

lemma wf_reschedule: "wf_handles s \<Longrightarrow> wf_handles (reschedule n s)"
proof (induction n arbitrary: s)
  case 0
  then show ?case by simp
next
  case (Suc n)
  let ?s1 = "s\<lparr>timers := timers s @ [(nextHandle s, RunCb, timeout_delay (checkInterval s))],
               nextHandle := nextHandle s + 1, checkTimeout := Some (nextHandle s)\<rparr>"
  have "wf_handles ?s1"
    using Suc.prems
    by (rule wf_add [where P = "\<lambda>t. True" and cb = RunCb
          and d = "timeout_delay (checkInterval s)"]) simp_all
  then have "wf_handles (reschedule n ?s1)"
    by (rule Suc.IH)
  then show ?case
    by (simp add: setTimeout_def)
qed

lemma wf_emit_check: "wf_handles s \<Longrightarrow> wf_handles (emit_check s)"
proof -
  assume w: "wf_handles s"
  have "wf_handles ((emit E_check s)\<lparr>onceCheck := 0\<rparr>)"
    using w by (rule wf_update) (simp_all add: emit_def)
  then show ?thesis
    by (simp add: emit_check_def wf_reschedule)
qed

lemma wf_check_rejected: "wf_handles s \<Longrightarrow> wf_handles (check_rejected e s)"
proof -
  assume "wf_handles s"
  then have w: "wf_handles (emit_check (setDefaults s))"
    by (intro wf_emit_check wf_setDefaults)
  have "wf_handles (emit (E_error e) ((emit_check (setDefaults s))\<lparr>lastError := e\<rparr>))"
    using w by (rule wf_update) (simp_all add: emit_def)
  then show ?thesis
    using w by (simp add: check_rejected_def Let_def)
qed

lemma wf_check_resolved: "wf_handles s \<Longrightarrow> wf_handles (check_resolved r s)"
proof -
  assume "wf_handles s"
  then have w: "wf_handles (emit_check s)"
    by (rule wf_emit_check)
  then have "wf_handles ((emit_check s)\<lparr>isUserAwake := None\<rparr>)"
    by (rule wf_update) simp_all
  then have t: "wf_handles (check_rejected (JError ''TypeError'') ((emit_check s)\<lparr>isUserAwake := None\<rparr>))"
    by (rule wf_check_rejected)
  have u: "\<And>x. timers x = timers (emit_check s) \<Longrightarrow> nextHandle x = nextHandle (emit_check s)
      \<Longrightarrow> idleTimeout x = idleTimeout (emit_check s) \<Longrightarrow> wf_handles x"
    using w by (rule wf_update)
  show ?thesis
    using w t
    by (auto simp add: check_resolved_def Let_def emit_def resetLastWindow_def
        split: option.splits intro!: u)
qed

lemma wf_awakeUser: "wf_handles s \<Longrightarrow> wf_handles (awakeUser s)"
proof (cases "isUserAwake s = Some True")
  case True
  assume "wf_handles s"
  then show ?thesis
    using True by (simp add: awakeUser_def)
next
  case False
  assume "wf_handles s"
  then show ?thesis
    by (rule wf_add_idle [where P = "\<lambda>t. Some (fst t) \<noteq> idleTimeout s"
          and d = "timeout_delay (idleAfter s)"])
      (simp_all add: False awakeUser_def Let_def emit_def setTimeout_def clearTimeout_fields
        clearTimeout_timers)
qed

lemma wf_sample: "wf_handles s \<Longrightarrow> wf_handles (sample p s)"
proof -
  assume w: "wf_handles s"
  then have "wf_handles (s\<lparr>mousemoves := mousemoves s + 1\<rparr>)"
    by (rule wf_update) simp_all
  then have "wf_handles (emit_mousemove s)"
    by (simp add: emit_mousemove_def Let_def wf_awakeUser)
  then have "wf_handles ((emit_mousemove s)\<lparr>lastMousePos := Some p\<rparr>)"
    by (rule wf_update) simp_all
  then show ?thesis
    using w by (simp add: sample_def)
qed

lemma wf_MouseChecker_stop: "wf_handles s \<Longrightarrow> wf_handles (MouseChecker_stop s)"
proof (cases "mousePositionInterval s")
  case None
  assume "wf_handles s"
  then show ?thesis
    using None by (simp add: MouseChecker_stop_def)
next
  case (Some h)
  assume "wf_handles s"
  then have "wf_handles (clearTimeout (Some h) s)"
    by (rule wf_clearTimeout)
  then have "wf_handles ((clearTimeout (Some h) s)\<lparr>mousePositionInterval := None\<rparr>)"
    by (rule wf_update) simp_all
  then show ?thesis
    using Some by (simp add: MouseChecker_stop_def clearInterval_def)
qed

lemma wf_step:
  assumes "wf_handles s" and "step a s = Some s'"
  shows "wf_handles s'"
proof (cases a)
  case CallStart
  have "wf_handles (MouseChecker_start (setDefaults s))"
    using wf_setDefaults [OF assms(1)]
    by (rule wf_add [where P = "\<lambda>t. True" and cb = SampleCb and d = "timeout_delay 2000"])
      (simp_all add: MouseChecker_start_def setInterval_def)
  then have "wf_handles (start s)"
    by (rule wf_update) (simp_all add: start_def run_def check_def emit_def)
  then show ?thesis
    using assms(2) CallStart by simp
next
  case CallStop
  let ?s1 = "s\<lparr>currentState := Some STOP\<rparr>"
  have "wf_handles ?s1"
    using assms(1) by (rule wf_update) simp_all
  then have w: "wf_handles (clearTimeout (idleTimeout ?s1) (clearTimeout (checkTimeout ?s1) ?s1))"
    by (intro wf_clearTimeout)
  then have "wf_handles (MouseChecker_stop
      (clearTimeout (idleTimeout ?s1) (clearTimeout (checkTimeout ?s1) ?s1)))"
    by (rule wf_MouseChecker_stop)
  then have "wf_handles (stop s)"
    by (rule wf_update) (simp_all add: stop_def Let_def emit_def clearTimeout_fields)
  then show ?thesis
    using assms(2) CallStop by simp
next
  case CallDestroy
  then show ?thesis
    using assms(2) wf_update [OF assms(1), of "destroy s"] by (auto simp add: destroy_def)
next
  case (Fire h)
  from assms(2) Fire obtain k cb d
    where f: "find (\<lambda>t. fst t = h) (timers s) = Some (k, cb, d)"
    by (auto split: option.splits)
  have r: "wf_handles (remove_timer h s)"
    using assms(1) by (rule wf_filter [where P = "\<lambda>t. fst t \<noteq> h"]) (simp_all add: remove_timer_def)
  show ?thesis
  proof (cases cb)
    case RunCb
    then have "s' = run (remove_timer h s)"
      using assms(2) Fire f by simp
    then show ?thesis
      using wf_update [OF r, of "run (remove_timer h s)"] by (simp add: run_def check_def)
  next
    case IdleUserCb
    then have "s' = idleUser (remove_timer h s)"
      using assms(2) Fire f by simp
    then show ?thesis
      using wf_update [OF r, of "idleUser (remove_timer h s)"]
      by (simp add: idleUser_def Let_def emit_def resetLastWindow_def)
  next
    case SampleCb
    then show ?thesis
      using assms(2) Fire f by simp
  qed
next
  case (Tick h p)
  then show ?thesis
    using assms by (auto split: option.splits if_splits simp add: wf_sample)
next
  case (Resolve r)
  have "wf_handles (s\<lparr>pending := pending s - 1\<rparr>)"
    using assms(1) by (rule wf_update) simp_all
  then show ?thesis
    using assms(2) Resolve by (auto split: if_splits simp add: wf_check_resolved)
next
  case (Reject e)
  have "wf_handles (s\<lparr>pending := pending s - 1\<rparr>)"
    using assms(1) by (rule wf_update) simp_all
  then show ?thesis
    using assms(2) Reject by (auto split: if_splits simp add: wf_check_rejected)
qed

lemma check_rejected_started:
  "currentState (check_rejected e s) = Some START \<and> lastWindow (check_rejected e s) \<noteq> None"
  by (simp add: check_rejected_def Let_def emit_def emit_check_fields setDefaults_fields)

lemma check_resolved_started:
  assumes "currentState s = Some START \<longrightarrow> lastWindow s \<noteq> None"
  shows "currentState (check_resolved r s) = Some START \<longrightarrow> lastWindow (check_resolved r s) \<noteq> None"
proof -
  have "lastWindow (check_rejected (JError ''TypeError'') ((emit_check s)\<lparr>isUserAwake := None\<rparr>))
          \<noteq> None"
    by (simp add: check_rejected_started)
  then show ?thesis
    using assms
    by (auto simp add: check_resolved_def Let_def emit_def resetLastWindow_def emit_check_fields
        split: option.splits)
qed

lemma sample_started:
  "currentState (sample p s) = currentState s \<and> lastWindow (sample p s) = lastWindow s"
  by (simp add: sample_def emit_mousemove_def Let_def awakeUser_def setTimeout_def emit_def
      clearTimeout_fields)

lemma started_step:
  assumes "currentState s = Some START \<longrightarrow> lastWindow s \<noteq> None" and "step a s = Some s'"
  shows "currentState s' = Some START \<longrightarrow> lastWindow s' \<noteq> None"
proof (cases a)
  case CallStart
  then show ?thesis
    using assms(2)
    by (auto simp add: start_def run_def check_def emit_def MouseChecker_start_def
        setInterval_def setDefaults_fields)
next
  case CallStop
  then show ?thesis
    using assms(2) by (auto simp add: stop_state START_def STOP_def)
next
  case CallDestroy
  then show ?thesis
    using assms by (auto simp add: destroy_def)
next
  case (Fire h)
  from assms(2) Fire obtain k cb d
    where f: "find (\<lambda>t. fst t = h) (timers s) = Some (k, cb, d)"
    by (auto split: option.splits)
  show ?thesis
  proof (cases cb)
    case RunCb
    then have "s' = run (remove_timer h s)"
      using assms(2) Fire f by simp
    then show ?thesis
      using assms(1) by (simp add: run_def check_def remove_timer_def)
  next
    case IdleUserCb
    then have "s' = idleUser (remove_timer h s)"
      using assms(2) Fire f by simp
    then show ?thesis
      by (simp add: idleUser_def Let_def emit_def resetLastWindow_def)
  next
    case SampleCb
    then show ?thesis
      using assms(2) Fire f by simp
  qed
next
  case (Tick h p)
  then have "s' = sample p s"
    using assms(2) by (auto split: option.splits if_splits)
  then show ?thesis
    using assms(1) by (simp add: sample_started)
next
  case (Resolve r)
  then have "s' = check_resolved r (s\<lparr>pending := pending s - 1\<rparr>)"
    using assms(2) by (auto split: if_splits)
  then show ?thesis
    using check_resolved_started [of "s\<lparr>pending := pending s - 1\<rparr>" r] assms(1) by simp
next
  case (Reject e)
  then have "s' = check_rejected e (s\<lparr>pending := pending s - 1\<rparr>)"
    using assms(2) by (auto split: if_splits)
  then show ?thesis
    by (simp add: check_rejected_started)
qed

lemma single_loop_new: "single_loop (new_monitor ci ia)"
proof -
  have "wf_handles (new_monitor ci ia)"
    by (simp add: wf_handles_def new_monitor_def)
  moreover have "currentState (new_monitor ci ia) \<noteq> Some START"
    by (simp add: new_monitor_def)
  ultimately show ?thesis
    using loop_inv_new [of ci ia] by (simp add: single_loop_def)
qed

lemma single_loop_step:
  assumes "single_loop s" and "a = CallStart \<longrightarrow> pending s = 0" and "step a s = Some s'"
  shows "single_loop s'"
proof -
  have "loop_inv s'"
    using assms by (intro loop_inv_step [of s a s']) (simp_all add: single_loop_def)
  moreover have "wf_handles s'"
    using assms(1,3) by (intro wf_step [of s a s']) (simp_all add: single_loop_def)
  moreover have "currentState s' = Some START \<longrightarrow> lastWindow s' \<noteq> None"
    using assms(1,3) by (intro started_step [of s a s']) (simp_all add: single_loop_def)
  ultimately show ?thesis
    by (simp add: single_loop_def)
qed

lemma single_loop_exec:
  assumes "single_loop s" and "settled_starts as s" and "exec as s = Some s'"
  shows "single_loop s'"
  using assms
proof (induction as arbitrary: s)
  case Nil
  then show ?case by simp
next
  case (Cons a as)
  from Cons.prems(3) obtain s1 where s1: "step a s = Some s1" and e: "exec as s1 = Some s'"
    by (auto split: option.splits)
  from Cons.prems(2) s1 have g: "a = CallStart \<longrightarrow> pending s = 0" and r: "settled_starts as s1"
    by (auto split: if_splits)
  have "single_loop s1"
    using Cons.prems(1) g s1 by (rule single_loop_step)
  then show ?case
    using r e by (rule Cons.IH)
qed





text \<open>
  In a run in which \<open>start()\<close> is only called while no query is outstanding there is one
  loop: at most one query is outstanding.
\<close>

lemma single_loop_one_query:
  assumes "settled_starts as (new_monitor ci ia)" and "exec as (new_monitor ci ia) = Some s"
  shows "pending s \<le> 1"
proof -
  have "single_loop s"
    using single_loop_new assms by (rule single_loop_exec)
  then show ?thesis
    by (simp add: single_loop_def loop_inv_def)
qed

section \<open>destroy\<close>








end
